theory Spec2Isabelle
  imports Complex_Main
begin

section \<open>External jobs and their handles\<close>

text \<open>
  The supervisor \<^verbatim>\<open>_run_in_parallel\<close> of
  \<^verbatim>\<open>dev_scripts/update_to_aas_core_meta_codegen.py\<close> receives a sequence of
  thunks (\<^verbatim>\<open>calls\<close>); each thunk spawns one operating-system process and
  returns its handle, or raises. What a spawned job does is not decided by the supervisor
  but by the job, so it enters the model as data: a \<open>task\<close> says whether the spawn
  succeeds, at which moment the job exits on its own (if ever), with which exit status,
  and how long it takes to die after a termination request (if it honours one at all).

  Moments are counted on a logical clock \<open>tick\<close> that advances by one with every
  interaction of the supervisor with the outside world (a spawn, a status check, a
  termination request, a sleep, a progress report). Only the order of a job's exit relative
  to the supervisor's actions is observable, and every such order is the clock of some task.
\<close>

datatype error = LaunchError

record task =
  launches :: bool
  exits_at :: "nat option"
  exit_code :: int
  term_grace :: "nat option"

text \<open>
  The handle of a spawned job. \<open>returncode\<close> is the attribute the supervisor reads
  (\<^verbatim>\<open>proc.returncode\<close>: \<open>None\<close> while no exit status has been observed).
  \<open>term_at\<close> is the moment of the first termination request that reached the job.
  \<open>started\<close>, \<open>polls\<close> and \<open>cancels\<close> only keep the books: the moment of the
  spawn, and how often the supervisor called \<^verbatim>\<open>proc.poll()\<close> and
  \<^verbatim>\<open>proc.terminate()\<close> on this handle.
\<close>

record handle =
  job :: task
  started :: nat
  returncode :: "int option"
  term_at :: "nat option"
  polls :: nat
  cancels :: nat

text \<open>
  Modelled from the spec: the completion state of a job, which the handle operations of
  section 4.1 read and act on (in the source it is the state of the operating-system
  process behind \<^verbatim>\<open>subprocess.Popen\<close>, which is not among the source files).
  \<open>kill_at\<close> is the moment at which a termination request kills the job, if it does.
\<close>

definition kill_at :: "handle \<Rightarrow> nat option" where
  "kill_at h =
     (case term_at h of
        None \<Rightarrow> None
      | Some s \<Rightarrow> (case term_grace (job h) of None \<Rightarrow> None | Some g \<Rightarrow> Some (s + g)))"

text \<open>
  Modelled from the spec: when and how the job ends, on its own with its exit status, or
  killed by the termination request, whichever comes first. A killed job has the status
  \<open>-15\<close> (the negated signal number), which the spec treats as a failure status.
\<close>

definition fate :: "handle \<Rightarrow> (nat \<times> int) option" where
  "fate h =
     (case exits_at (job h) of
        None \<Rightarrow> (case kill_at h of None \<Rightarrow> None | Some k \<Rightarrow> Some (k, - 15))
      | Some e \<Rightarrow>
          (case kill_at h of
             None \<Rightarrow> Some (e, exit_code (job h))
           | Some k \<Rightarrow> if e \<le> k then Some (e, exit_code (job h)) else Some (k, - 15)))"

text \<open>
  Modelled from the spec: the status a check at moment \<open>t\<close> finds, \<open>None\<close> while
  the job is running.
\<close>

definition status_at :: "nat \<Rightarrow> handle \<Rightarrow> int option" where
  "status_at t h =
     (case fate h of None \<Rightarrow> None | Some (d, c) \<Rightarrow> if d \<le> t then Some c else None)"

text \<open>
  Modelled from the spec: the Task Handle operations \<open>launch\<close>, \<open>poll\<close> and
  \<open>cancel\<close> of section 4.1. In the source they are the constructor and the methods
  \<^verbatim>\<open>poll\<close> and \<^verbatim>\<open>terminate\<close> of \<^verbatim>\<open>subprocess.Popen\<close>, which
  is not among the source files. \<open>launch\<close> spawns the job or fails with
  \<open>LaunchError\<close>; a fresh handle has observed no status.
\<close>

definition launch :: "nat \<Rightarrow> task \<Rightarrow> error + handle" where
  "launch t c =
     (if launches c
      then Inr \<lparr>job = c, started = t, returncode = None, term_at = None, polls = 0, cancels = 0\<rparr>
      else Inl LaunchError)"

text \<open>
  Modelled from the spec: the non-blocking status check of section 4.1. It reads the
  completion state of the job at moment \<open>t\<close>; once a terminal status has been observed
  it stays.
\<close>

definition observe :: "nat \<Rightarrow> handle \<Rightarrow> handle" where
  "observe t h = (if returncode h = None then h\<lparr>returncode := status_at t h\<rparr> else h)"

text \<open>Modelled from the spec: \<open>poll\<close> of section 4.1, as the supervisor calls it.\<close>

definition poll :: "nat \<Rightarrow> handle \<Rightarrow> handle" where
  "poll t h = (observe t h)\<lparr>polls := Suc (polls h)\<rparr>"

text \<open>
  Modelled from the spec: \<open>cancel\<close> of section 4.1 (\<^verbatim>\<open>terminate\<close> in the
  source). It requests termination of a job that is still running and does nothing to a
  job that has ended; the job's reaction is decided by the first request that reaches it.
\<close>

definition terminate :: "nat \<Rightarrow> handle \<Rightarrow> handle" where
  "terminate t h =
     (let h' = (observe t h)\<lparr>cancels := Suc (cancels h)\<rparr>
      in if returncode h' = None
         then h'\<lparr>term_at := (case term_at h' of None \<Rightarrow> Some t | Some s \<Rightarrow> Some s)\<rparr>
         else h')"

section \<open>The supervisor\<close>

text \<open>
  The state one run of the supervisor works on: the clock, the list \<^verbatim>\<open>procs\<close>,
  the number of \<^verbatim>\<open>time.sleep(1)\<close> calls made, and everything the run has written:
  a \<open>Status n\<close> for each call \<^verbatim>\<open>on_status_update(n)\<close> and a \<open>Stderr s\<close>
  for each line printed to the standard error stream.
\<close>

datatype event = Status nat | Stderr string

record world =
  tick :: nat
  procs :: "handle list"
  sleeps :: nat
  printed :: "event list"

text \<open>
  How a run ends: it returns \<^verbatim>\<open>None\<close> or an exit code, it lets the exception of
  a failed spawn escape, or the loop is still running when the fuel is used up.
\<close>

datatype outcome = Returns "int option" | Raises error | OutOfFuel

text \<open>
  Lines 60 to 62: the thunks are called in their order, each handle appended to
  \<^verbatim>\<open>procs\<close>; the first spawn that raises ends the loop with the handles made
  so far.
\<close>

fun launch_each :: "nat \<Rightarrow> task list \<Rightarrow> handle list \<times> error option" where
  "launch_each t [] = ([], None)"
| "launch_each t (call # calls) =
     (case launch t call of
        Inl e \<Rightarrow> ([], Some e)
      | Inr proc \<Rightarrow> (case launch_each (Suc t) calls of (ps, r) \<Rightarrow> (proc # ps, r)))"

text \<open>Lines 65 and 96: the number of handles without an observed exit status.\<close>

definition remaining :: "handle list \<Rightarrow> nat" where
  "remaining ps = length (filter (\<lambda>proc. returncode proc = None) ps)"

text \<open>
  Lines 75 to 80: every handle is polled, and the flag \<^verbatim>\<open>failure\<close> is raised by
  a handle whose observed status is not zero.
\<close>

fun poll_and_check :: "nat \<Rightarrow> bool \<Rightarrow> handle list \<Rightarrow> bool \<times> handle list" where
  "poll_and_check t failure [] = (failure, [])"
| "poll_and_check t failure (proc # ps) =
     (let proc' = poll t proc;
          failure' = (case returncode proc' of
                        None \<Rightarrow> failure
                      | Some rc \<Rightarrow> if rc \<noteq> 0 then True else failure)
      in case poll_and_check (Suc t) failure' ps of (f, ps') \<Rightarrow> (f, proc' # ps'))"

text \<open>Lines 87 and 88: \<^verbatim>\<open>terminate\<close> is called on every handle.\<close>

fun terminate_all :: "nat \<Rightarrow> handle list \<Rightarrow> handle list" where
  "terminate_all t [] = []"
| "terminate_all t (proc # ps) = terminate t proc # terminate_all (Suc t) ps"

text \<open>Lines 93 and 94: every handle is polled once more; the flag is not touched.\<close>

fun poll_sweep :: "nat \<Rightarrow> handle list \<Rightarrow> handle list" where
  "poll_sweep t [] = []"
| "poll_sweep t (proc # ps) = poll t proc # poll_sweep (Suc t) ps"

text \<open>
  Lines 100 to 102, the \<^verbatim>\<open>finally\<close> clause: \<^verbatim>\<open>terminate\<close> is called on
  the handles without an observed exit status.
\<close>

fun terminate_running :: "nat \<Rightarrow> handle list \<Rightarrow> handle list" where
  "terminate_running t [] = []"
| "terminate_running t (proc # ps) =
     (if returncode proc = None
      then terminate t proc # terminate_running (Suc t) ps
      else proc # terminate_running t ps)"

definition cleanup :: "world \<Rightarrow> world" where
  "cleanup w =
     w\<lparr>procs := terminate_running (tick w) (procs w), tick := tick w + remaining (procs w)\<rparr>"

text \<open>
  Lines 69 to 71: when the wall clock has passed \<^verbatim>\<open>next_print\<close>, the number of
  remaining processes is reported and the next report is due 15 seconds later. \<open>wall\<close>
  is the reading of \<^verbatim>\<open>time.time()\<close> at each moment of the logical clock.
\<close>

definition report :: "(nat \<Rightarrow> real) \<Rightarrow> real \<Rightarrow> nat \<Rightarrow> world \<Rightarrow> world \<times> real" where
  "report wall next_print remaining_procs w =
     (if wall (tick w) > next_print
      then (let w' = w\<lparr>printed := printed w @ [Status remaining_procs], tick := Suc (tick w)\<rparr>
            in (w', wall (tick w') + 15))
      else (w, next_print))"

text \<open>Line 73.\<close>

definition sleep :: "world \<Rightarrow> world" where
  "sleep w = w\<lparr>tick := Suc (tick w), sleeps := Suc (sleeps w)\<rparr>"

text \<open>Lines 75 to 80 on the state; \<^verbatim>\<open>failure\<close> is \<open>False\<close> when a sweep starts.\<close>

definition first_sweep :: "world \<Rightarrow> bool \<times> world" where
  "first_sweep w =
     (case poll_and_check (tick w) False (procs w) of
        (failure, ps) \<Rightarrow> (failure, w\<lparr>procs := ps, tick := tick w + length ps\<rparr>))"

text \<open>Lines 83 to 90: the two messages around the termination of every process.\<close>

definition fail_fast :: "world \<Rightarrow> world" where
  "fail_fast w =
     w\<lparr>procs := terminate_all (tick w) (procs w),
       tick := tick w + length (procs w),
       printed := printed w @
         [Stderr ''One or more processes failed. Terminating all the processes...'',
          Stderr ''Terminated all the processes.'']\<rparr>"

text \<open>Lines 93 and 94 on the state.\<close>

definition second_sweep :: "world \<Rightarrow> world" where
  "second_sweep w =
     w\<lparr>procs := poll_sweep (tick w) (procs w), tick := tick w + length (procs w)\<rparr>"

text \<open>
  Lines 68 to 98, the loop. One unit of fuel pays for one iteration. The flag
  \<^verbatim>\<open>failure\<close> is \<open>False\<close> at the head of every iteration, since a raised
  flag leaves the function in the same iteration.
\<close>

fun supervise :: "nat \<Rightarrow> (nat \<Rightarrow> real) \<Rightarrow> real \<Rightarrow> nat \<Rightarrow> world \<Rightarrow> outcome \<times> world" where
  "supervise 0 wall next_print remaining_procs w =
     (if remaining_procs > 0 then (OutOfFuel, w) else (Returns None, w))"
| "supervise (Suc fuel) wall next_print remaining_procs w =
     (if remaining_procs > 0
      then (case report wall next_print remaining_procs w of
              (w1, next_print1) \<Rightarrow>
                (case first_sweep (sleep w1) of
                   (failure, w2) \<Rightarrow>
                     if failure then (Returns (Some 1), fail_fast w2)
                     else (let w3 = second_sweep w2
                           in supervise fuel wall next_print1 (remaining (procs w3)) w3)))
      else (Returns None, w))"

text \<open>
  \<^verbatim>\<open>_run_in_parallel\<close>, lines 57 to 102. The \<^verbatim>\<open>finally\<close> clause runs on
  every way out of the \<^verbatim>\<open>try\<close> block: the two returns and the escaping
  exception. A loop that is still running has not reached it.
\<close>

definition run_in_parallel :: "nat \<Rightarrow> (nat \<Rightarrow> real) \<Rightarrow> task list \<Rightarrow> outcome \<times> world" where
  "run_in_parallel fuel wall calls =
     (case launch_each 0 calls of
        (ps, r) \<Rightarrow>
          (let w0 = \<lparr>tick = length ps, procs = ps, sleeps = 0, printed = []\<rparr>
           in case r of
                Some e \<Rightarrow> (Raises e, cleanup w0)
              | None \<Rightarrow>
                  (case supervise fuel wall (wall (tick w0) + 15) (remaining (procs w0)) w0 of
                     (res, w) \<Rightarrow> (res, if res = OutOfFuel then w else cleanup w))))"

section \<open>What a run leaves behind\<close>

text \<open>A handle whose observed exit status is not zero, and how many there are.\<close>

definition failed :: "handle \<Rightarrow> bool" where
  "failed h = (case returncode h of None \<Rightarrow> False | Some rc \<Rightarrow> rc \<noteq> 0)"


text \<open>The arguments of the calls of \<^verbatim>\<open>on_status_update\<close>, in their order.\<close>

fun status_counts :: "event list \<Rightarrow> nat list" where
  "status_counts [] = []"
| "status_counts (Status n # es) = n # status_counts es"
| "status_counts (Stderr s # es) = status_counts es"

text \<open>The two lines the supervisor itself prints, and the events that are its own.\<close>

definition own_event :: "event \<Rightarrow> bool" where
  "own_event ev =
     (case ev of
        Status n \<Rightarrow> True
      | Stderr s \<Rightarrow>
          s = ''One or more processes failed. Terminating all the processes...'' \<or>
          s = ''Terminated all the processes.'')"

section \<open>The launchers of the test modules\<close>

text \<open>
  \<^verbatim>\<open>_run_tests_and_rerecord\<close>, lines 162 to 196. The environment of the children
  is the caller's with the record mode switched on and the repository root appended to
  \<^verbatim>\<open>PYTHONPATH\<close>; there is one launcher per test file, in the order of the
  (sorted) files, and each spawns the interpreter on the file with both output streams
  sent to the null device.
\<close>

datatype stream = INHERIT | PIPE | DEVNULL

record popen_args =
  args :: "string list"
  cwd :: string
  stdout :: stream
  stderr :: stream
  encoding :: string
  env :: "string \<rightharpoonup> string"

definition rerecord_env :: "(string \<rightharpoonup> string) \<Rightarrow> string \<Rightarrow> string \<Rightarrow> (string \<rightharpoonup> string)" where
  "rerecord_env environ pathsep our_repo =
     (let env0 = environ(''AAS_CORE3_1_PYTHON_TESTS_RECORD_MODE'' \<mapsto> ''true'');
          python_path = (case env0 ''PYTHONPATH'' of
                           None \<Rightarrow> our_repo
                         | Some pp \<Rightarrow> pp @ pathsep @ our_repo)
      in env0(''PYTHONPATH'' \<mapsto> python_path))"

definition test_calls ::
  "string \<Rightarrow> string \<Rightarrow> (string \<rightharpoonup> string) \<Rightarrow> string list \<Rightarrow> popen_args list" where
  "test_calls executable our_repo env0 test_files =
     map (\<lambda>a_pth. \<lparr>args = [executable, a_pth], cwd = our_repo, stdout = DEVNULL,
                     stderr = DEVNULL, encoding = ''utf-8'', env = env0\<rparr>) test_files"

text \<open>
  What a test module does once it runs: how it behaves as a job, and the lines it writes
  to its standard output and to its standard error.
\<close>

record program =
  conduct :: task
  to_stdout :: "string list"
  to_stderr :: "string list"

text \<open>
  The lines of a child that reach the terminal of the caller. This is the meaning of the
  stream arguments of \<^verbatim>\<open>subprocess.Popen\<close>, which is not among the source
  files: a stream that the child inherits from the caller shows what is written to it; a
  stream sent to the null device, or into a pipe that nothing here reads, shows nothing.
\<close>

definition shown :: "popen_args \<Rightarrow> program \<Rightarrow> string list" where
  "shown a p =
     (if stdout a = INHERIT then to_stdout p else []) @
     (if stderr a = INHERIT then to_stderr p else [])"

text \<open>
  Lines 186 to 210: the launchers are handed to \<^verbatim>\<open>_run_in_parallel\<close>. \<open>os\<close>
  stands for the operating system: it says which program a spawn with given arguments
  runs. The result is how the run ends, what the supervisor has written, and the lines of
  the spawned children that reach the terminal. (The lines that
  \<^verbatim>\<open>_run_tests_and_rerecord\<close> prints itself before and after the run are left
  out.)
\<close>

definition run_test_modules ::
  "nat \<Rightarrow> (nat \<Rightarrow> real) \<Rightarrow> (popen_args \<Rightarrow> program) \<Rightarrow> string \<Rightarrow> string \<Rightarrow>
     (string \<rightharpoonup> string) \<Rightarrow> string list \<Rightarrow> outcome \<times> event list \<times> string list" where
  "run_test_modules fuel wall os executable our_repo env0 test_files =
     (let calls = test_calls executable our_repo env0 test_files
      in case run_in_parallel fuel wall (map (\<lambda>a. conduct (os a)) calls) of
           (res, w) \<Rightarrow>
             (res, printed w,
              concat (map (\<lambda>a. shown a (os a)) (take (length (procs w)) calls))))"

section \<open>Concrete batches\<close>

text \<open>Two wall clocks: one second, and ten seconds, per moment of the logical clock.\<close>

definition steady :: "nat \<Rightarrow> real" where
  "steady t = real t"

definition slow :: "nat \<Rightarrow> real" where
  "slow t = 10 * real t"

text \<open>
  Jobs: one that exits with status \<open>c\<close> at moment \<open>e\<close>, one that runs until it is
  told to stop and then needs \<open>g\<close> moments, one that never stops, and one that cannot
  be started.
\<close>

definition exits :: "nat \<Rightarrow> int \<Rightarrow> task" where
  "exits e c = \<lparr>launches = True, exits_at = Some e, exit_code = c, term_grace = Some 0\<rparr>"

definition runs_until_told :: "nat \<Rightarrow> task" where
  "runs_until_told g = \<lparr>launches = True, exits_at = None, exit_code = 0, term_grace = Some g\<rparr>"

definition unstoppable :: task where
  "unstoppable = \<lparr>launches = True, exits_at = None, exit_code = 0, term_grace = None\<rparr>"

definition unlaunchable :: task where
  "unlaunchable = \<lparr>launches = False, exits_at = None, exit_code = 0, term_grace = None\<rparr>"

text \<open>
  A test module that tells what it was started with: it writes its arguments to its
  standard output and its working directory to its standard error, and exits with
  status 1 at the moment given by the number of its arguments.
\<close>

definition chatty :: "popen_args \<Rightarrow> program" where
  "chatty a = \<lparr>conduct = exits (length (args a)) 1, to_stdout = args a, to_stderr = [cwd a]\<rparr>"

section \<open>Auxiliary facts\<close>

subsection \<open>One handle\<close>

lemma observe_fields [simp]:
  "job (observe t h) = job h" "started (observe t h) = started h"
  "term_at (observe t h) = term_at h" "polls (observe t h) = polls h"
  "cancels (observe t h) = cancels h"
  by (simp_all add: observe_def)

lemma observe_settled: "returncode h \<noteq> None \<Longrightarrow> observe t h = h"
  by (auto simp add: observe_def)

lemma observe_returncode:
  "returncode (observe t h) = (case returncode h of None \<Rightarrow> status_at t h | Some rc \<Rightarrow> Some rc)"
  by (simp add: observe_def split: option.splits)

lemma poll_fields [simp]:
  "job (poll t h) = job h" "started (poll t h) = started h"
  "term_at (poll t h) = term_at h" "polls (poll t h) = Suc (polls h)"
  "cancels (poll t h) = cancels h" "returncode (poll t h) = returncode (observe t h)"
  by (simp_all add: poll_def)

lemma terminate_fields [simp]:
  "job (terminate t h) = job h" "started (terminate t h) = started h"
  "polls (terminate t h) = polls h" "cancels (terminate t h) = Suc (cancels h)"
  "returncode (terminate t h) = returncode (observe t h)"
  by (simp_all add: terminate_def Let_def)

lemma terminate_term_at:
  "term_at (terminate t h) =
     (if returncode (observe t h) = None
      then (case term_at h of None \<Rightarrow> Some t | Some s \<Rightarrow> Some s) else term_at h)"
  by (simp add: terminate_def Let_def)

lemma failed_observe: "failed h \<Longrightarrow> failed (observe t h)"
  by (simp add: failed_def observe_def split: option.splits)

subsection \<open>Sweeps over the handles\<close>

lemma length_poll_sweep [simp]: "length (poll_sweep t ps) = length ps"
  by (induction ps arbitrary: t) simp_all

lemma length_terminate_all [simp]: "length (terminate_all t ps) = length ps"
  by (induction ps arbitrary: t) simp_all

lemma length_terminate_running [simp]: "length (terminate_running t ps) = length ps"
  by (induction ps arbitrary: t) simp_all

lemma map_job_poll_sweep [simp]: "map job (poll_sweep t ps) = map job ps"
  by (induction ps arbitrary: t) simp_all

lemma map_job_terminate_all [simp]: "map job (terminate_all t ps) = map job ps"
  by (induction ps arbitrary: t) simp_all

lemma map_job_terminate_running [simp]: "map job (terminate_running t ps) = map job ps"
  by (induction ps arbitrary: t) simp_all

lemma poll_sweep_set:
  "h' \<in> set (poll_sweep t ps) \<Longrightarrow> \<exists>h\<in>set ps. \<exists>t'\<ge>t. h' = poll t' h"
proof (induction ps arbitrary: t)
  case Nil
  then show ?case by simp
next
  case (Cons p ps)
  from Cons.prems have "h' = poll t p \<or> h' \<in> set (poll_sweep (Suc t) ps)" by simp
  then show ?case
  proof
    assume "h' = poll t p"
    then show ?thesis by auto
  next
    assume "h' \<in> set (poll_sweep (Suc t) ps)"
    from Cons.IH [OF this] obtain h t' where "h \<in> set ps" "Suc t \<le> t'" "h' = poll t' h"
      by blast
    then show ?thesis by (auto intro: Suc_leD)
  qed
qed

lemma poll_sweep_mem:
  "h \<in> set ps \<Longrightarrow> \<exists>t'\<ge>t. poll t' h \<in> set (poll_sweep t ps)"
proof (induction ps arbitrary: t)
  case Nil
  then show ?case by simp
next
  case (Cons p ps)
  show ?case
  proof (cases "h = p")
    case True
    then show ?thesis by auto
  next
    case False
    with Cons.prems have "h \<in> set ps" by simp
    from Cons.IH [OF this, of "Suc t"] obtain t' where "Suc t \<le> t'" "poll t' h \<in> set (poll_sweep (Suc t) ps)"
      by blast
    then show ?thesis by (auto intro: Suc_leD)
  qed
qed

lemma terminate_all_set:
  "h' \<in> set (terminate_all t ps) \<Longrightarrow> \<exists>h\<in>set ps. \<exists>t'\<ge>t. h' = terminate t' h"
proof (induction ps arbitrary: t)
  case Nil
  then show ?case by simp
next
  case (Cons p ps)
  from Cons.prems have "h' = terminate t p \<or> h' \<in> set (terminate_all (Suc t) ps)" by simp
  then show ?case
  proof
    assume "h' = terminate t p"
    then show ?thesis by auto
  next
    assume "h' \<in> set (terminate_all (Suc t) ps)"
    from Cons.IH [OF this] obtain h t' where "h \<in> set ps" "Suc t \<le> t'" "h' = terminate t' h"
      by blast
    then show ?thesis by (auto intro: Suc_leD)
  qed
qed

lemma terminate_running_set:
  "h' \<in> set (terminate_running t ps) \<Longrightarrow>
     \<exists>h\<in>set ps. (returncode h \<noteq> None \<and> h' = h) \<or> (returncode h = None \<and> (\<exists>t'\<ge>t. h' = terminate t' h))"
proof (induction ps arbitrary: t)
  case Nil
  then show ?case by simp
next
  case (Cons p ps)
  show ?case
  proof (cases "returncode p = None")
    case True
    with Cons.prems have "h' = terminate t p \<or> h' \<in> set (terminate_running (Suc t) ps)" by simp
    then show ?thesis
    proof
      assume "h' = terminate t p"
      with True show ?thesis by auto
    next
      assume "h' \<in> set (terminate_running (Suc t) ps)"
      from Cons.IH [OF this] obtain h where h: "h \<in> set ps"
        "(returncode h \<noteq> None \<and> h' = h) \<or> (returncode h = None \<and> (\<exists>t'\<ge>Suc t. h' = terminate t' h))"
        by blast
      then show ?thesis by (auto intro: Suc_leD)
    qed
  next
    case False
    with Cons.prems have "h' = p \<or> h' \<in> set (terminate_running t ps)" by simp
    then show ?thesis
    proof
      assume "h' = p"
      with False show ?thesis by auto
    next
      assume "h' \<in> set (terminate_running t ps)"
      from Cons.IH [OF this] show ?thesis by auto
    qed
  qed
qed

lemma poll_and_check_snd: "snd (poll_and_check t f ps) = poll_sweep t ps"
  by (induction ps arbitrary: t f) (simp_all add: Let_def case_prod_beta)

lemma poll_and_check_fst:
  "fst (poll_and_check t f ps) = (f \<or> (\<exists>h\<in>set (poll_sweep t ps). failed h))"
  by (induction ps arbitrary: t f)
     (auto simp add: Let_def failed_def case_prod_beta split: option.splits)

lemma remaining_le_length: "remaining ps \<le> length ps"
  by (simp add: remaining_def)

lemma remaining_poll_sweep: "remaining (poll_sweep t ps) \<le> remaining ps"
  by (induction ps arbitrary: t)
     (auto simp add: remaining_def observe_def le_SucI)

lemma remaining_pos: "h \<in> set ps \<Longrightarrow> returncode h = None \<Longrightarrow> 0 < remaining ps"
  by (auto simp add: remaining_def filter_empty_conv)

lemma remaining_zero: "remaining ps = 0 \<longleftrightarrow> (\<forall>h\<in>set ps. returncode h \<noteq> None)"
  by (auto simp add: remaining_def filter_empty_conv)

subsection \<open>The steps of the loop on the state\<close>

lemma status_counts_append: "status_counts (xs @ ys) = status_counts xs @ status_counts ys"
  by (induction xs rule: status_counts.induct) simp_all

lemma sleep_fields [simp]:
  "procs (sleep w) = procs w" "printed (sleep w) = printed w" "tick (sleep w) = Suc (tick w)"
  "sleeps (sleep w) = Suc (sleeps w)"
  by (simp_all add: sleep_def)

lemma report_fields:
  "procs (fst (report wall np r w)) = procs w"
  "sleeps (fst (report wall np r w)) = sleeps w"
  "tick w \<le> tick (fst (report wall np r w))"
  "printed (fst (report wall np r w)) = printed w \<or> printed (fst (report wall np r w)) = printed w @ [Status r]"
  by (simp_all add: report_def Let_def)

lemma first_sweep_eq:
  "first_sweep w =
     (\<exists>h\<in>set (poll_sweep (tick w) (procs w)). failed h,
      w\<lparr>procs := poll_sweep (tick w) (procs w), tick := tick w + length (procs w)\<rparr>)"
  using poll_and_check_fst [of "tick w" False "procs w"] poll_and_check_snd [of "tick w" False "procs w"]
  by (simp add: first_sweep_def case_prod_beta)

lemma second_sweep_fields [simp]:
  "procs (second_sweep w) = poll_sweep (tick w) (procs w)"
  "printed (second_sweep w) = printed w" "sleeps (second_sweep w) = sleeps w"
  "tick (second_sweep w) = tick w + length (procs w)"
  by (simp_all add: second_sweep_def)

lemma fail_fast_fields [simp]:
  "procs (fail_fast w) = terminate_all (tick w) (procs w)"
  "sleeps (fail_fast w) = sleeps w"
  "tick (fail_fast w) = tick w + length (procs w)"
  "status_counts (printed (fail_fast w)) = status_counts (printed w)"
  by (simp_all add: fail_fast_def status_counts_append)

lemma cleanup_fields [simp]:
  "procs (cleanup w) = terminate_running (tick w) (procs w)"
  "printed (cleanup w) = printed w" "sleeps (cleanup w) = sleeps w"
  by (simp_all add: cleanup_def)

subsection \<open>Spawning\<close>

lemma launch_each_length: "length (fst (launch_each t calls)) \<le> length calls"
  by (induction calls arbitrary: t)
     (auto simp add: launch_def case_prod_beta le_SucI)

lemma launch_each_fresh:
  "h \<in> set (fst (launch_each t calls)) \<Longrightarrow>
     returncode h = None \<and> term_at h = None \<and> polls h = 0 \<and> cancels h = 0"
  by (induction calls arbitrary: t)
     (auto simp add: launch_def case_prod_beta split: if_splits)

lemma launch_each_all:
  "\<forall>c\<in>set calls. launches c \<Longrightarrow>
     snd (launch_each t calls) = None \<and> map job (fst (launch_each t calls)) = calls"
  by (induction calls arbitrary: t) (auto simp add: launch_def case_prod_beta)

lemma launch_each_stops:
  "\<forall>c\<in>set pre. launches c \<Longrightarrow> \<not> launches bad \<Longrightarrow>
     snd (launch_each t (pre @ bad # post)) = Some LaunchError \<and>
     map job (fst (launch_each t (pre @ bad # post))) = pre \<and>
     map started (fst (launch_each t (pre @ bad # post))) = [t..<t + length pre]"
  by (induction pre arbitrary: t) (auto simp add: launch_def case_prod_beta upt_rec)

lemma run_unfold:
  "run_in_parallel fuel wall calls =
     (let ps = fst (launch_each 0 calls);
          w0 = \<lparr>tick = length ps, procs = ps, sleeps = 0, printed = []\<rparr>
      in case snd (launch_each 0 calls) of
           Some e \<Rightarrow> (Raises e, cleanup w0)
         | None \<Rightarrow>
             (let r = supervise fuel wall (wall (length ps) + 15) (remaining ps) w0
              in (fst r, if fst r = OutOfFuel then snd r else cleanup (snd r))))"
  by (simp add: run_in_parallel_def case_prod_beta Let_def split: option.splits)

subsection \<open>Progress reports\<close>

lemma report_printed:
  "status_counts (printed (fst (report wall np r w))) = status_counts (printed w) \<or>
   status_counts (printed (fst (report wall np r w))) = status_counts (printed w) @ [r]"
  by (simp add: report_def Let_def status_counts_append)

lemma supervise_counts:
  "\<forall>m\<in>set (status_counts (printed w)). r \<le> m \<and> m \<le> n \<Longrightarrow>
   sorted_wrt (\<ge>) (status_counts (printed w)) \<Longrightarrow>
   r = remaining (procs w) \<Longrightarrow> r \<le> n \<Longrightarrow>
   (\<forall>m\<in>set (status_counts (printed (snd (supervise fuel wall np r w)))). m \<le> n) \<and>
   sorted_wrt (\<ge>) (status_counts (printed (snd (supervise fuel wall np r w))))"
proof (induction fuel arbitrary: np r w)
  case 0
  then show ?case by auto
next
  case (Suc fuel)
  show ?case
  proof (cases "0 < r")
    case False
    with Suc.prems show ?thesis by auto
  next
    case True
    define w1 where "w1 = fst (report wall np r w)"
    define np1 where "np1 = snd (report wall np r w)"
    define w2 where "w2 = snd (first_sweep (sleep w1))"
    define w3 where "w3 = second_sweep w2"
    have procs1: "procs w1 = procs w"
      by (simp add: w1_def report_fields)
    have counts1: "status_counts (printed w1) = status_counts (printed w) \<or>
        status_counts (printed w1) = status_counts (printed w) @ [r]"
      unfolding w1_def by (rule report_printed)
    have bound1: "\<forall>m\<in>set (status_counts (printed w1)). r \<le> m \<and> m \<le> n"
      using counts1 Suc.prems(1,4) by auto
    have sorted1: "sorted_wrt (\<ge>) (status_counts (printed w1))"
      using counts1 Suc.prems(1,2) by (auto simp add: sorted_wrt_append)
    have printed2: "printed w2 = printed w1" and procs2: "procs w2 = poll_sweep (tick (sleep w1)) (procs w)"
      by (simp_all add: w2_def first_sweep_eq procs1)
    show ?thesis
    proof (cases "fst (first_sweep (sleep w1))")
      case True
      with \<open>0 < r\<close> have "snd (supervise (Suc fuel) wall np r w) = fail_fast w2"
        by (simp add: w1_def w2_def case_prod_beta)
      with bound1 sorted1 printed2 show ?thesis by simp
    next
      case False
      with \<open>0 < r\<close> have step: "supervise (Suc fuel) wall np r w =
          supervise fuel wall np1 (remaining (procs w3)) w3"
        by (simp add: w1_def w2_def w3_def np1_def case_prod_beta Let_def)
      have "remaining (procs w3) \<le> r"
        using remaining_poll_sweep [of "tick w2" "procs w2"]
          remaining_poll_sweep [of "tick (sleep w1)" "procs w"] Suc.prems(3)
        by (simp add: w3_def procs2)
      moreover have "printed w3 = printed w1"
        by (simp add: w3_def printed2)
      ultimately have "(\<forall>m\<in>set (status_counts (printed w3)). remaining (procs w3) \<le> m \<and> m \<le> n)"
        and "sorted_wrt (\<ge>) (status_counts (printed w3))" and "remaining (procs w3) \<le> n"
        using bound1 sorted1 Suc.prems(4) by auto
      from Suc.IH [OF this(1,2) refl this(3)] step show ?thesis by simp
    qed
  qed
qed

subsection \<open>Failures stay observed\<close>

lemma failed_poll: "failed h \<Longrightarrow> failed (poll t h)"
  by (simp add: failed_def observe_def split: option.splits)







subsection \<open>How often a handle is cancelled\<close>

lemma supervise_cancels:
  "\<forall>h\<in>set (procs w). cancels h = 0 \<Longrightarrow>
     \<forall>h\<in>set (procs (snd (supervise fuel wall np r w))). cancels h \<le> 1"
proof (induction fuel arbitrary: np r w)
  case 0
  then show ?case by auto
next
  case (Suc fuel)
  define w1 where "w1 = fst (report wall np r w)"
  define np1 where "np1 = snd (report wall np r w)"
  define w2 where "w2 = snd (first_sweep (sleep w1))"
  define w3 where "w3 = second_sweep w2"
  have procs2: "procs w2 = poll_sweep (tick (sleep w1)) (procs w)"
    by (simp add: w2_def first_sweep_eq w1_def report_fields)
  have zero2: "\<forall>h\<in>set (procs w2). cancels h = 0"
    using Suc.prems poll_sweep_set [of _ "tick (sleep w1)" "procs w"] unfolding procs2 by fastforce
  show ?case
  proof (cases "0 < r")
    case False
    with Suc.prems show ?thesis by auto
  next
    case pos: True
    show ?thesis
    proof (cases "fst (first_sweep (sleep w1))")
      case True
      with pos have "snd (supervise (Suc fuel) wall np r w) = fail_fast w2"
        by (simp add: w1_def w2_def case_prod_beta)
      moreover have "\<forall>h\<in>set (terminate_all (tick w2) (procs w2)). cancels h \<le> 1"
        using zero2 terminate_all_set [of _ "tick w2" "procs w2"] by fastforce
      ultimately show ?thesis by simp
    next
      case False
      with pos have step: "supervise (Suc fuel) wall np r w =
          supervise fuel wall np1 (remaining (procs w3)) w3"
        by (simp add: w1_def w2_def w3_def np1_def case_prod_beta Let_def)
      have "\<forall>h\<in>set (procs w3). cancels h = 0"
        using zero2 poll_sweep_set [of _ "tick w2" "procs w2"] unfolding w3_def by fastforce
      from Suc.IH [OF this] step show ?thesis by simp
    qed
  qed
qed

lemma terminate_running_cancels:
  "\<forall>h\<in>set ps. cancels h \<le> n \<Longrightarrow> \<forall>h\<in>set (terminate_running t ps). cancels h \<le> Suc n"
  using terminate_running_set [of _ t ps] by fastforce

subsection \<open>Batches whose jobs all come to an end\<close>

lemma observe_after_exit:
  "exits_at (job h) = Some e \<Longrightarrow> e \<le> t \<Longrightarrow> returncode (observe t h) \<noteq> None"
  by (auto simp add: observe_def status_at_def fate_def split: option.splits)

lemma poll_sweep_after_exit:
  assumes "\<forall>h\<in>set ps. \<exists>e\<le>m. exits_at (job h) = Some e" and "m \<le> t"
  shows "remaining (poll_sweep t ps) = 0"
proof -
  have "returncode h' \<noteq> None" if "h' \<in> set (poll_sweep t ps)" for h'
  proof -
    from poll_sweep_set [OF that] obtain h t' where h: "h \<in> set ps" "t \<le> t'" "h' = poll t' h"
      by blast
    from assms(1) h(1) obtain e where "e \<le> m" "exits_at (job h) = Some e" by blast
    with assms(2) h(2) have "returncode (observe t' h) \<noteq> None"
      by (intro observe_after_exit [of h e]) simp_all
    with h(3) show ?thesis by simp
  qed
  then show ?thesis by (simp add: remaining_zero)
qed

lemma remaining_poll_sweep_zero: "remaining ps = 0 \<Longrightarrow> remaining (poll_sweep t ps) = 0"
  using remaining_poll_sweep [of t ps] by simp

lemma jobs_of_handles:
  "(\<forall>h\<in>set ps. P (job h)) \<longleftrightarrow> (\<forall>c\<in>set (map job ps). P c)"
  by simp

lemma supervise_returns:
  "\<forall>c\<in>set (map job (procs w)). \<exists>e\<le>m. exits_at c = Some e \<Longrightarrow>
   r = 0 \<or> (0 < fuel \<and> m \<le> fuel + tick w) \<Longrightarrow>
   fst (supervise fuel wall np r w) \<noteq> OutOfFuel"
proof (induction fuel arbitrary: np r w)
  case 0
  then show ?case by simp
next
  case (Suc fuel)
  define w1 where "w1 = fst (report wall np r w)"
  define np1 where "np1 = snd (report wall np r w)"
  define w2 where "w2 = snd (first_sweep (sleep w1))"
  define w3 where "w3 = second_sweep w2"
  have tick1: "tick w \<le> tick w1" and procs1: "procs w1 = procs w"
    by (simp_all add: w1_def report_fields)
  have procs2: "procs w2 = poll_sweep (Suc (tick w1)) (procs w)"
    and tick2: "tick w2 = Suc (tick w1) + length (procs w)"
    by (simp_all add: w2_def first_sweep_eq procs1)
  have procs3: "procs w3 = poll_sweep (tick w2) (procs w2)"
    and tick3: "tick w3 = tick w2 + length (procs w2)"
    by (simp_all add: w3_def)
  show ?case
  proof (cases "0 < r")
    case False
    then show ?thesis by simp
  next
    case pos: True
    show ?thesis
    proof (cases "fst (first_sweep (sleep w1))")
      case True
      with pos show ?thesis by (simp add: w1_def case_prod_beta)
    next
      case False
      with pos have step: "supervise (Suc fuel) wall np r w =
          supervise fuel wall np1 (remaining (procs w3)) w3"
        by (simp add: w1_def w2_def w3_def np1_def case_prod_beta Let_def)
      have jobs3: "\<forall>c\<in>set (map job (procs w3)). \<exists>e\<le>m. exits_at c = Some e"
        using Suc.prems(1) by (simp add: procs3 procs2)
      have "remaining (procs w3) = 0 \<or> (0 < fuel \<and> m \<le> fuel + tick w3)"
      proof (cases "0 < fuel")
        case True
        with Suc.prems(2) pos tick1 tick2 tick3 show ?thesis by simp
      next
        case False
        with Suc.prems(2) pos tick1 have "m \<le> Suc (tick w1)" by simp
        with Suc.prems(1) have "remaining (procs w2) = 0"
          unfolding procs2 by (intro poll_sweep_after_exit [of _ m]) simp_all
        then show ?thesis
          unfolding procs3 by (simp add: remaining_poll_sweep_zero)
      qed
      from Suc.IH [OF jobs3 this] step show ?thesis by simp
    qed
  qed
qed

lemma launch_each_jobs: "set (map job (fst (launch_each t calls))) \<subseteq> set calls"
  by (induction calls arbitrary: t) (auto simp add: launch_def case_prod_beta)

subsection \<open>What the clean-up leaves\<close>

lemma terminate_requested:
  "returncode (terminate t h) = None \<Longrightarrow> term_at (terminate t h) \<noteq> None"
  by (simp add: terminate_term_at split: option.splits)

lemma terminate_running_settles:
  "h' \<in> set (terminate_running t ps) \<Longrightarrow> returncode h' \<noteq> None \<or> term_at h' \<noteq> None"
  using terminate_running_set [of h' t ps] terminate_requested by blast

lemma map_started_terminate_running [simp]:
  "map started (terminate_running t ps) = map started ps"
  by (induction ps arbitrary: t) simp_all

subsection \<open>A job that never ends\<close>

lemma unstoppable_single_never_returns:
  "fst (supervise fuel wall np 1 w) = OutOfFuel"
  if "procs w = [h]" "returncode h = None" "term_at h = None" "exits_at (job h) = None"
  using that
proof (induction fuel arbitrary: np w h)
  case 0
  then show ?case by simp
next
  case (Suc fuel)
  define w1 where "w1 = fst (report wall np 1 w)"
  define np1 where "np1 = snd (report wall np 1 w)"
  define w2 where "w2 = snd (first_sweep (sleep w1))"
  define w3 where "w3 = second_sweep w2"
  define h2 where "h2 = poll (Suc (tick w1)) h"
  define h3 where "h3 = poll (tick w2) h2"
  have alive: "returncode (observe t k) = None"
    if "returncode k = None" "term_at k = None" "exits_at (job k) = None" for t k
    using that by (simp add: observe_def status_at_def fate_def kill_at_def)
  have procs2: "procs w2 = [h2]"
    by (simp add: w2_def first_sweep_eq w1_def report_fields Suc.prems(1) h2_def)
  have h2: "returncode h2 = None" "term_at h2 = None" "exits_at (job h2) = None"
    using Suc.prems alive [of h] by (simp_all add: h2_def)
  have procs3: "procs w3 = [h3]"
    by (simp add: w3_def procs2 h3_def)
  have h3: "returncode h3 = None" "term_at h3 = None" "exits_at (job h3) = None"
    using h2 alive [of h2] by (simp_all add: h3_def)
  have "poll_sweep (tick (sleep w1)) (procs (sleep w1)) = [h2]"
    by (simp add: w1_def report_fields Suc.prems(1) h2_def)
  with h2 have nofail: "\<not> fst (first_sweep (sleep w1))"
    by (simp add: first_sweep_eq failed_def)
  have "remaining (procs w3) = 1"
    using h3 by (simp add: procs3 remaining_def)
  with nofail have "supervise (Suc fuel) wall np 1 w = supervise fuel wall np1 1 w3"
    by (simp add: w1_def w2_def w3_def np1_def case_prod_beta Let_def)
  with Suc.IH [OF procs3 h3] show ?case by simp
qed

subsection \<open>One failing job among jobs that run until they are cancelled\<close>

text \<open>
  The state of a handle before any cancellation, in a batch where a job either never ends
  by itself or ends at moment \<open>e\<close> with a status that is not zero.
\<close>

lemma untouched_poll:
  assumes "term_at h = None \<and> cancels h = 0 \<and>
      (case exits_at (job h) of
         None \<Rightarrow> returncode h = None
       | Some e' \<Rightarrow> e' = e \<and> exit_code (job h) \<noteq> 0 \<and>
           (returncode h = None \<or> returncode h = Some (exit_code (job h))))"
  shows "term_at (poll t h) = None \<and> cancels (poll t h) = 0 \<and>
      (case exits_at (job (poll t h)) of
         None \<Rightarrow> returncode (poll t h) = None
       | Some e' \<Rightarrow> e' = e \<and> exit_code (job (poll t h)) \<noteq> 0 \<and>
           (returncode (poll t h) = None \<or> returncode (poll t h) = Some (exit_code (job (poll t h)))))"
  using assms
  by (auto simp add: observe_def status_at_def fate_def kill_at_def split: option.splits)

lemma untouched_poll_sweep:
  assumes "\<forall>h\<in>set ps. term_at h = None \<and> cancels h = 0 \<and>
      (case exits_at (job h) of
         None \<Rightarrow> returncode h = None
       | Some e' \<Rightarrow> e' = e \<and> exit_code (job h) \<noteq> 0 \<and>
           (returncode h = None \<or> returncode h = Some (exit_code (job h))))"
  shows "\<forall>h\<in>set (poll_sweep t ps). term_at h = None \<and> cancels h = 0 \<and>
      (case exits_at (job h) of
         None \<Rightarrow> returncode h = None
       | Some e' \<Rightarrow> e' = e \<and> exit_code (job h) \<noteq> 0 \<and>
           (returncode h = None \<or> returncode h = Some (exit_code (job h))))"
proof
  fix h' assume "h' \<in> set (poll_sweep t ps)"
  from poll_sweep_set [OF this] obtain h t' where "h \<in> set ps" "h' = poll t' h" by blast
  with assms untouched_poll [of h e t'] show "term_at h' = None \<and> cancels h' = 0 \<and>
      (case exits_at (job h') of
         None \<Rightarrow> returncode h' = None
       | Some e' \<Rightarrow> e' = e \<and> exit_code (job h') \<noteq> 0 \<and>
           (returncode h' = None \<or> returncode h' = Some (exit_code (job h'))))"
    by blast
qed

lemma untouched_failure_seen:
  assumes "term_at h = None" "exits_at (job h) = Some e" "exit_code (job h) \<noteq> 0"
    "returncode h = None \<or> returncode h = Some (exit_code (job h))" "e \<le> t"
  shows "failed (poll t h)"
  using assms
  by (auto simp add: failed_def observe_def status_at_def fate_def kill_at_def split: option.splits)

lemma untouched_terminate:
  assumes "term_at h = None" "cancels h = 0" "exits_at (job h) = None" "returncode h = None"
  shows "returncode (terminate t h) = None \<and> cancels (terminate t h) = 1"
  using assms
  by (simp add: observe_def status_at_def fate_def kill_at_def)

lemma supervise_one_failing:
  assumes "\<forall>h\<in>set (procs w). term_at h = None \<and> cancels h = 0 \<and>
      (case exits_at (job h) of
         None \<Rightarrow> returncode h = None
       | Some e' \<Rightarrow> e' = e \<and> exit_code (job h) \<noteq> 0 \<and>
           (returncode h = None \<or> returncode h = Some (exit_code (job h))))"
    and "\<exists>c\<in>set (map job (procs w)). exits_at c = None"
    and "\<exists>c\<in>set (map job (procs w)). exits_at c = Some e"
    and "0 < fuel" and "e < fuel + tick w" and "0 < r"
  shows "fst (supervise fuel wall np r w) = Returns (Some 1) \<and>
    map job (procs (snd (supervise fuel wall np r w))) = map job (procs w) \<and>
    (\<forall>h\<in>set (procs (snd (supervise fuel wall np r w))).
       exits_at (job h) = None \<longrightarrow> returncode h = None \<and> cancels h = 1)"
  using assms
proof (induction fuel arbitrary: np r w)
  case 0
  then show ?case by simp
next
  case (Suc fuel)
  define w1 where "w1 = fst (report wall np r w)"
  define np1 where "np1 = snd (report wall np r w)"
  define w2 where "w2 = snd (first_sweep (sleep w1))"
  define w3 where "w3 = second_sweep w2"
  have tick1: "tick w \<le> tick w1" and procs1: "procs w1 = procs w"
    by (simp_all add: w1_def report_fields)
  have procs2: "procs w2 = poll_sweep (Suc (tick w1)) (procs w)"
    and tick2: "tick w2 = Suc (tick w1) + length (procs w)"
    by (simp_all add: w2_def first_sweep_eq procs1)
  have procs3: "procs w3 = poll_sweep (tick w2) (procs w2)"
    and tick3: "tick w3 = tick w2 + length (procs w2)"
    by (simp_all add: w3_def)
  have inv2: "\<forall>h\<in>set (procs w2). term_at h = None \<and> cancels h = 0 \<and>
      (case exits_at (job h) of
         None \<Rightarrow> returncode h = None
       | Some e' \<Rightarrow> e' = e \<and> exit_code (job h) \<noteq> 0 \<and>
           (returncode h = None \<or> returncode h = Some (exit_code (job h))))"
    unfolding procs2 using Suc.prems(1) by (rule untouched_poll_sweep)
  show ?case
  proof (cases "fst (first_sweep (sleep w1))")
    case True
    with \<open>0 < r\<close> have res: "supervise (Suc fuel) wall np r w = (Returns (Some 1), fail_fast w2)"
      by (simp add: w1_def w2_def case_prod_beta)
    have "returncode h' = None \<and> cancels h' = 1"
      if "h' \<in> set (terminate_all (tick w2) (procs w2))" "exits_at (job h') = None" for h'
    proof -
      from terminate_all_set [OF that(1)] obtain h t' where h: "h \<in> set (procs w2)"
        "h' = terminate t' h" by blast
      with that(2) have "exits_at (job h) = None" by simp
      with inv2 h(1) have "term_at h = None" "cancels h = 0" "returncode h = None" by auto
      with \<open>exits_at (job h) = None\<close> h(2) untouched_terminate [of h t'] show ?thesis by simp
    qed
    with res show ?thesis by (simp add: procs2)
  next
    case False
    with \<open>0 < r\<close> have step: "supervise (Suc fuel) wall np r w =
        supervise fuel wall np1 (remaining (procs w3)) w3"
      by (simp add: w1_def w2_def w3_def np1_def case_prod_beta Let_def)
    have late: "tick w < e"
    proof (rule ccontr)
      assume "\<not> tick w < e"
      then have early: "e \<le> tick w" by simp
      from Suc.prems(3) obtain h where h: "h \<in> set (procs w)" "exits_at (job h) = Some e" by auto
      from poll_sweep_mem [OF h(1), of "Suc (tick w1)"] obtain t'
        where t': "Suc (tick w1) \<le> t'" "poll t' h \<in> set (poll_sweep (Suc (tick w1)) (procs w))"
        by blast
      from Suc.prems(1) h have "term_at h = None" "exit_code (job h) \<noteq> 0"
        "returncode h = None \<or> returncode h = Some (exit_code (job h))" by auto
      moreover from early tick1 t'(1) have "e \<le> t'" by simp
      ultimately have "failed (poll t' h)"
        using h(2) by (intro untouched_failure_seen [of h e]) simp_all
      with t'(2) have "fst (first_sweep (sleep w1))"
        by (auto simp add: first_sweep_eq procs1)
      with False show False by simp
    qed
    have inv3: "\<forall>h\<in>set (procs w3). term_at h = None \<and> cancels h = 0 \<and>
      (case exits_at (job h) of
         None \<Rightarrow> returncode h = None
       | Some e' \<Rightarrow> e' = e \<and> exit_code (job h) \<noteq> 0 \<and>
           (returncode h = None \<or> returncode h = Some (exit_code (job h))))"
      unfolding procs3 using inv2 by (rule untouched_poll_sweep)
    have jobs3: "map job (procs w3) = map job (procs w)"
      by (simp add: procs3 procs2)
    from Suc.prems(2) jobs3 obtain h where h: "h \<in> set (procs w3)" "exits_at (job h) = None"
      by (metis (no_types, lifting) image_iff list.set_map)
    with inv3 have "returncode h = None" by auto
    with h(1) have rem3: "0 < remaining (procs w3)" by (rule remaining_pos)
    from late Suc.prems(5) have fuel: "0 < fuel" by simp
    from Suc.prems(5) tick1 tick2 tick3 have later: "e < fuel + tick w3" by simp
    from Suc.IH [OF inv3 _ _ fuel later rem3] Suc.prems(2,3) jobs3 step
    show ?thesis by simp
  qed
qed

lemma launch_each_handles:
  "h \<in> set (fst (launch_each t calls)) \<Longrightarrow> job h \<in> set calls"
  using launch_each_jobs [of t calls] by auto

subsection \<open>What a run writes\<close>

lemma supervise_prints_own:
  "\<forall>ev\<in>set (printed w). own_event ev \<Longrightarrow>
     \<forall>ev\<in>set (printed (snd (supervise fuel wall np r w))). own_event ev"
proof (induction fuel arbitrary: np r w)
  case 0
  then show ?case by auto
next
  case (Suc fuel)
  define w1 where "w1 = fst (report wall np r w)"
  define np1 where "np1 = snd (report wall np r w)"
  define w2 where "w2 = snd (first_sweep (sleep w1))"
  define w3 where "w3 = second_sweep w2"
  have own1: "\<forall>ev\<in>set (printed w1). own_event ev"
    using Suc.prems report_fields(4) [of wall np r w]
    by (auto simp add: w1_def own_event_def)
  have printed2: "printed w2 = printed w1"
    by (simp add: w2_def first_sweep_eq)
  show ?case
  proof (cases "0 < r")
    case False
    with Suc.prems show ?thesis by auto
  next
    case pos: True
    show ?thesis
    proof (cases "fst (first_sweep (sleep w1))")
      case True
      with pos have "snd (supervise (Suc fuel) wall np r w) = fail_fast w2"
        by (simp add: w1_def w2_def case_prod_beta)
      with own1 printed2 show ?thesis
        by (auto simp add: fail_fast_def own_event_def)
    next
      case False
      with pos have step: "supervise (Suc fuel) wall np r w =
          supervise fuel wall np1 (remaining (procs w3)) w3"
        by (simp add: w1_def w2_def w3_def np1_def case_prod_beta Let_def)
      have "\<forall>ev\<in>set (printed w3). own_event ev"
        using own1 by (simp add: w3_def printed2)
      from Suc.IH [OF this] step show ?thesis by simp
    qed
  qed
qed

lemma run_prints_own: "ev \<in> set (printed (snd (run_in_parallel fuel wall calls))) \<Longrightarrow> own_event ev"
proof -
  assume ev: "ev \<in> set (printed (snd (run_in_parallel fuel wall calls)))"
  define ps where "ps = fst (launch_each 0 calls)"
  define w0 where "w0 = \<lparr>tick = length ps, procs = ps, sleeps = 0, printed = []\<rparr>"
  define r where "r = supervise fuel wall (wall (length ps) + 15) (remaining ps) w0"
  have "\<forall>ev\<in>set (printed (snd r)). own_event ev"
    unfolding r_def by (rule supervise_prints_own) (simp add: w0_def)
  moreover have "printed (snd (run_in_parallel fuel wall calls)) = printed (snd r) \<or>
      printed (snd (run_in_parallel fuel wall calls)) = []"
    by (simp add: run_unfold Let_def ps_def w0_def r_def split: option.splits)
  ultimately show ?thesis using ev by auto
qed

subsection \<open>The environment of the test modules\<close>

lemma rerecord_env_record_mode:
  "rerecord_env environ pathsep our_repo ''AAS_CORE3_1_PYTHON_TESTS_RECORD_MODE'' = Some ''true''"
  by (simp add: rerecord_env_def Let_def)

lemma rerecord_env_python_path:
  "rerecord_env environ pathsep our_repo ''PYTHONPATH'' =
     Some (case environ ''PYTHONPATH'' of None \<Rightarrow> our_repo | Some pp \<Rightarrow> pp @ pathsep @ our_repo)"
  by (simp add: rerecord_env_def Let_def)

subsection \<open>A failing job among arbitrary jobs\<close>

lemma failing_poll:
  assumes "exits_at (job h) = Some e \<and> exit_code (job h) \<noteq> 0 \<and> term_at h = None \<and>
      (returncode h = None \<or> returncode h = Some (exit_code (job h)))"
  shows "exits_at (job (poll t h)) = Some e \<and> exit_code (job (poll t h)) \<noteq> 0 \<and>
      term_at (poll t h) = None \<and>
      (returncode (poll t h) = None \<or> returncode (poll t h) = Some (exit_code (job (poll t h))))"
  using assms
  by (auto simp add: observe_def status_at_def fate_def kill_at_def split: option.splits)

lemma failing_poll_sweep:
  assumes "\<exists>h\<in>set ps. exits_at (job h) = Some e \<and> exit_code (job h) \<noteq> 0 \<and> term_at h = None \<and>
      (returncode h = None \<or> returncode h = Some (exit_code (job h)))"
  shows "\<exists>h\<in>set (poll_sweep t ps). exits_at (job h) = Some e \<and> exit_code (job h) \<noteq> 0 \<and>
      term_at h = None \<and> (returncode h = None \<or> returncode h = Some (exit_code (job h)))"
proof -
  from assms obtain h where h: "h \<in> set ps"
    "exits_at (job h) = Some e \<and> exit_code (job h) \<noteq> 0 \<and> term_at h = None \<and>
      (returncode h = None \<or> returncode h = Some (exit_code (job h)))"
    by blast
  from poll_sweep_mem [OF h(1), of t] obtain t' where "poll t' h \<in> set (poll_sweep t ps)"
    by blast
  with failing_poll [OF h(2), of t'] show ?thesis by blast
qed

lemma failing_seen_by_sweep:
  assumes "\<exists>h\<in>set ps. exits_at (job h) = Some e \<and> exit_code (job h) \<noteq> 0 \<and> term_at h = None \<and>
      (returncode h = None \<or> returncode h = Some (exit_code (job h)))"
    and "e \<le> t"
  shows "\<exists>h\<in>set (poll_sweep t ps). failed h"
proof -
  from assms(1) obtain h where h: "h \<in> set ps" "exits_at (job h) = Some e"
    "exit_code (job h) \<noteq> 0" "term_at h = None"
    "returncode h = None \<or> returncode h = Some (exit_code (job h))"
    by blast
  from poll_sweep_mem [OF h(1), of t] obtain t' where t': "t \<le> t'" "poll t' h \<in> set (poll_sweep t ps)"
    by blast
  from assms(2) t'(1) have "e \<le> t'" by simp
  with h have "failed (poll t' h)"
    by (intro untouched_failure_seen [of h e]) simp_all
  with t'(2) show ?thesis by blast
qed



lemma supervise_returns_after_failure:
  assumes "\<exists>h\<in>set (procs w). exits_at (job h) = Some e \<and> exit_code (job h) \<noteq> 0 \<and> term_at h = None \<and>
      (returncode h = None \<or> returncode h = Some (exit_code (job h)))"
    and "r = 0 \<or> (0 < fuel \<and> e < fuel + tick w)"
  shows "fst (supervise fuel wall np r w) \<noteq> OutOfFuel"
  using assms
proof (induction fuel arbitrary: np r w)
  case 0
  then show ?case by simp
next
  case (Suc fuel)
  define w1 where "w1 = fst (report wall np r w)"
  define np1 where "np1 = snd (report wall np r w)"
  define w2 where "w2 = snd (first_sweep (sleep w1))"
  define w3 where "w3 = second_sweep w2"
  have tick1: "tick w \<le> tick w1" and procs1: "procs w1 = procs w"
    by (simp_all add: w1_def report_fields)
  have procs2: "procs w2 = poll_sweep (Suc (tick w1)) (procs w)"
    and tick2: "tick w2 = Suc (tick w1) + length (procs w)"
    by (simp_all add: w2_def first_sweep_eq procs1)
  have procs3: "procs w3 = poll_sweep (tick w2) (procs w2)"
    and tick3: "tick w3 = tick w2 + length (procs w2)"
    by (simp_all add: w3_def)
  show ?case
  proof (cases "0 < r")
    case False
    then show ?thesis by simp
  next
    case pos: True
    show ?thesis
    proof (cases "fst (first_sweep (sleep w1))")
      case True
      with pos show ?thesis by (simp add: w1_def case_prod_beta)
    next
      case False
      with pos have step: "supervise (Suc fuel) wall np r w =
          supervise fuel wall np1 (remaining (procs w3)) w3"
        by (simp add: w1_def w2_def w3_def np1_def case_prod_beta Let_def)
      have late: "tick w < e"
      proof (rule ccontr)
        assume "\<not> tick w < e"
        with tick1 have "e \<le> Suc (tick w1)" by simp
        from failing_seen_by_sweep [OF Suc.prems(1) this]
        have "fst (first_sweep (sleep w1))"
          by (simp add: first_sweep_eq procs1)
        with False show False by simp
      qed
      have failing3: "\<exists>h\<in>set (procs w3). exits_at (job h) = Some e \<and> exit_code (job h) \<noteq> 0 \<and>
          term_at h = None \<and> (returncode h = None \<or> returncode h = Some (exit_code (job h)))"
        unfolding procs3 procs2 by (intro failing_poll_sweep Suc.prems(1))
      from late Suc.prems(2) pos tick1 tick2 tick3
      have "remaining (procs w3) = 0 \<or> (0 < fuel \<and> e < fuel + tick w3)" by simp
      from Suc.IH [OF failing3 this] step show ?thesis by simp
    qed
  qed
qed


subsection \<open>Spawning without an error\<close>

lemma launch_each_none:
  "snd (launch_each t calls) = None \<Longrightarrow> map job (fst (launch_each t calls)) = calls"
  by (induction calls arbitrary: t)
     (auto simp add: launch_def case_prod_beta split: if_splits)

lemma launch_each_none_spawns:
  assumes "snd (launch_each t calls) = None" and "c \<in> set calls"
  shows "\<exists>h\<in>set (fst (launch_each t calls)). job h = c"
proof -
  from assms have "c \<in> set (map job (fst (launch_each t calls)))"
    by (simp add: launch_each_none)
  then show ?thesis by (auto simp only: set_map image_iff)
qed

subsection \<open>What the children show\<close>

lemma shown_devnull: "stdout a = DEVNULL \<Longrightarrow> stderr a = DEVNULL \<Longrightarrow> shown a p = []"
  by (simp add: shown_def)

lemma shown_inherit:
  "stdout a = INHERIT \<Longrightarrow> stderr a = INHERIT \<Longrightarrow> shown a p = to_stdout p @ to_stderr p"
  by (simp add: shown_def)

lemma test_calls_devnull:
  "a \<in> set (test_calls executable our_repo env0 test_files) \<Longrightarrow>
     stdout a = DEVNULL \<and> stderr a = DEVNULL"
  by (auto simp add: test_calls_def)

lemma concat_all_empty: "\<forall>x\<in>set xs. f x = [] \<Longrightarrow> concat (map f xs) = []"
  by (induction xs) simp_all

section \<open>The claims\<close>

text \<open>
  C1. A task exits with a status that is not zero, and the run returns success: the exit
  happens after the first sweep of an iteration has polled the handle and before the second
  sweep polls it. The second sweep records the status, no process remains, and the loop
  ends without a look at the status: nothing is cancelled, nothing is printed, and the
  result is \<^verbatim>\<open>None\<close>.
\<close>

theorem failure_seen_by_second_sweep_is_lost:
  "fst (run_in_parallel 5 steady [exits 3 1]) = Returns None \<and>
   map returncode (procs (snd (run_in_parallel 5 steady [exits 3 1]))) = [Some 1] \<and>
   map polls (procs (snd (run_in_parallel 5 steady [exits 3 1]))) = [2] \<and>
   map cancels (procs (snd (run_in_parallel 5 steady [exits 3 1]))) = [0] \<and>
   printed (snd (run_in_parallel 5 steady [exits 3 1])) = []"
  by code_simp




text \<open>
  C3, as the code has it. In a batch where one task exits with a status that is not zero
  and there is at least one other task, all others running until they are cancelled, the
  run returns the exit code 1 and every other handle has received exactly two
  \<^verbatim>\<open>terminate\<close> calls: one when the failure was seen, one in the clean-up.
\<close>

theorem single_failure_cancels_the_others_twice:
  assumes "\<forall>c\<in>set (pre @ post). launches c \<and> exits_at c = None"
    and "launches bad" and "exits_at bad = Some e" and "exit_code bad \<noteq> 0"
    and "pre @ post \<noteq> []" and "e < fuel"
  shows "fst (run_in_parallel fuel wall (pre @ bad # post)) = Returns (Some 1) \<and>
    map job (procs (snd (run_in_parallel fuel wall (pre @ bad # post)))) = pre @ bad # post \<and>
    (\<forall>h\<in>set (procs (snd (run_in_parallel fuel wall (pre @ bad # post)))).
       exits_at (job h) = None \<longrightarrow> cancels h = 2)"
proof -
  define calls where "calls = pre @ bad # post"
  define ps where "ps = fst (launch_each 0 calls)"
  define w0 where "w0 = \<lparr>tick = length ps, procs = ps, sleeps = 0, printed = []\<rparr>"
  define r where "r = supervise fuel wall (wall (length ps) + 15) (remaining ps) w0"
  have all: "\<forall>c\<in>set calls. launches c"
    using assms(1,2) by (auto simp add: calls_def)
  from launch_each_all [OF this, of 0]
  have ok: "snd (launch_each 0 calls) = None" and jobs: "map job ps = calls"
    by (simp_all add: ps_def)
  have fresh: "returncode h = None \<and> term_at h = None \<and> cancels h = 0" if "h \<in> set ps" for h
    using that launch_each_fresh [of h 0 calls] by (simp add: ps_def)
  have kinds: "exits_at c = None \<or> (exits_at c = Some e \<and> exit_code c \<noteq> 0)"
    if "c \<in> set calls" for c
    using that assms(1,3,4) by (auto simp add: calls_def)
  have inv: "\<forall>h\<in>set (procs w0). term_at h = None \<and> cancels h = 0 \<and>
      (case exits_at (job h) of
         None \<Rightarrow> returncode h = None
       | Some e' \<Rightarrow> e' = e \<and> exit_code (job h) \<noteq> 0 \<and>
           (returncode h = None \<or> returncode h = Some (exit_code (job h))))"
  proof
    fix h assume h: "h \<in> set (procs w0)"
    then have "h \<in> set ps" by (simp add: w0_def)
    moreover from this have "job h \<in> set calls"
      using launch_each_handles [of h 0 calls] by (simp add: ps_def)
    ultimately show "term_at h = None \<and> cancels h = 0 \<and>
      (case exits_at (job h) of
         None \<Rightarrow> returncode h = None
       | Some e' \<Rightarrow> e' = e \<and> exit_code (job h) \<noteq> 0 \<and>
           (returncode h = None \<or> returncode h = Some (exit_code (job h))))"
      using fresh [of h] kinds [of "job h"] by (auto split: option.splits)
  qed
  obtain c where c: "c \<in> set (pre @ post)"
  proof (cases "pre @ post")
    case Nil
    with assms(5) show ?thesis by simp
  next
    case (Cons a as)
    then have "a \<in> set (pre @ post)" by (simp only: list.set_intros)
    then show ?thesis by (rule that)
  qed
  with assms(1) have "exits_at c = None" by blast
  with c have quiet: "\<exists>c\<in>set (map job (procs w0)). exits_at c = None"
    by (auto simp add: w0_def jobs calls_def)
  have failing: "\<exists>c\<in>set (map job (procs w0)). exits_at c = Some e"
    using assms(3) by (auto simp add: w0_def jobs calls_def)
  have "ps \<noteq> []"
    using jobs by (auto simp add: calls_def)
  then obtain h where "h \<in> set ps" by (cases ps) auto
  with fresh [of h] have rem: "0 < remaining ps"
    by (auto intro: remaining_pos)
  from assms(6) have fuel: "0 < fuel" "e < fuel + tick w0" by simp_all
  from supervise_one_failing [OF inv quiet failing fuel rem, of wall "wall (length ps) + 15"]
  have res: "fst r = Returns (Some 1)" and jobs_r: "map job (procs (snd r)) = calls"
    and once: "\<forall>h\<in>set (procs (snd r)). exits_at (job h) = None \<longrightarrow> returncode h = None \<and> cancels h = 1"
    by (simp_all add: r_def w0_def jobs)
  from ok res have run: "run_in_parallel fuel wall calls = (Returns (Some 1), cleanup (snd r))"
    by (simp add: run_unfold Let_def ps_def w0_def r_def)
  have "cancels h' = 2"
    if "h' \<in> set (terminate_running (tick (snd r)) (procs (snd r)))" "exits_at (job h') = None" for h'
  proof -
    from terminate_running_set [OF that(1)] obtain h where h: "h \<in> set (procs (snd r))"
      "(returncode h \<noteq> None \<and> h' = h) \<or> (returncode h = None \<and> (\<exists>t'\<ge>tick (snd r). h' = terminate t' h))"
      by blast
    with that(2) have "exits_at (job h) = None" by auto
    with once h(1) have "returncode h = None" "cancels h = 1" by auto
    with h(2) show ?thesis by auto
  qed
  with run jobs_r show ?thesis by (simp add: calls_def)
qed

theorem single_failure_witness:
  "fst (run_in_parallel 5 steady [unstoppable, exits 2 1, runs_until_told 1]) = Returns (Some 1) \<and>
   map cancels (procs (snd (run_in_parallel 5 steady [unstoppable, exits 2 1, runs_until_told 1]))) = [2, 1, 2]"
proof -
  have a: "\<forall>c\<in>set ([unstoppable] @ [runs_until_told 1]). launches c \<and> exits_at c = None"
    by (simp add: unstoppable_def runs_until_told_def)
  have b: "launches (exits 2 1)" "exits_at (exits 2 1) = Some 2" "exit_code (exits 2 1) \<noteq> 0"
    "[unstoppable] @ [runs_until_told 1] \<noteq> []" "(2::nat) < 5"
    by (simp_all add: exits_def)
  have "map cancels (procs (snd (run_in_parallel 5 steady [unstoppable, exits 2 1, runs_until_told 1]))) = [2, 1, 2]"
    by code_simp
  with single_failure_cancels_the_others_twice [OF a b, of steady]
  show ?thesis by simp
qed

theorem cancelled_twice_counterexample:
  "fst (run_in_parallel 5 steady [unstoppable, exits 0 1, unstoppable]) = Returns (Some 1) \<and>
   map cancels (procs (snd (run_in_parallel 5 steady [unstoppable, exits 0 1, unstoppable]))) = [2, 1, 2]"
  by code_simp




text \<open>
  C5, as the code has it. A handle is cancelled at most twice in a run (once when a
  failure is seen, once more in the clean-up); nothing stronger than the termination
  request is ever used, and the run does not wait for a cancelled job. So the run comes
  to an end in every batch where a task exits with a status that is not zero, whatever
  the other tasks do with the termination request: if the exit happens at moment \<open>e\<close>,
  more than \<open>e\<close> iterations are never needed. It also comes to an end when every job
  of the batch ends by itself.
\<close>

theorem cancelled_at_most_twice_and_returns_after_failure:
  "(\<forall>h\<in>set (procs (snd (run_in_parallel fuel wall calls))). cancels h \<le> 2) \<and>
   ((\<exists>c\<in>set calls. exits_at c = Some e \<and> exit_code c \<noteq> 0) \<and> e < fuel
      \<longrightarrow> fst (run_in_parallel fuel wall calls) \<noteq> OutOfFuel) \<and>
   ((\<forall>c\<in>set calls. \<exists>e\<le>m. exits_at c = Some e)
      \<longrightarrow> fst (run_in_parallel (Suc m) wall calls) \<noteq> OutOfFuel)"
proof -
  have twice: "\<forall>h\<in>set (procs (snd (run_in_parallel fuel wall calls))). cancels h \<le> 2"
  proof -
    define ps where "ps = fst (launch_each 0 calls)"
    define w0 where "w0 = \<lparr>tick = length ps, procs = ps, sleeps = 0, printed = []\<rparr>"
    define r where "r = supervise fuel wall (wall (length ps) + 15) (remaining ps) w0"
    have fresh: "\<forall>h\<in>set (procs w0). cancels h = 0"
      using launch_each_fresh [of _ 0 calls] by (simp add: w0_def ps_def)
    then have one: "\<forall>h\<in>set (procs (snd r)). cancels h \<le> 1"
      unfolding r_def by (rule supervise_cancels)
    from one have two: "\<forall>h\<in>set (procs (cleanup (snd r))). cancels h \<le> 2"
      using terminate_running_cancels [of "procs (snd r)" 1 "tick (snd r)"]
      by (simp add: numeral_2_eq_2)
    from fresh have two0: "\<forall>h\<in>set (procs (cleanup w0)). cancels h \<le> 2"
      using terminate_running_cancels [of "procs w0" 0 "tick w0"] by fastforce
    show ?thesis
    proof (cases "snd (launch_each 0 calls)")
      case (Some e)
      with two0 show ?thesis by (simp add: run_unfold Let_def ps_def w0_def)
    next
      case None
      show ?thesis
      proof (cases "fst r = OutOfFuel")
        case True
        with None have "snd (run_in_parallel fuel wall calls) = snd r"
          by (simp add: run_unfold Let_def ps_def w0_def r_def)
        with one show ?thesis by fastforce
      next
        case False
        with None have "snd (run_in_parallel fuel wall calls) = cleanup (snd r)"
          by (simp add: run_unfold Let_def ps_def w0_def r_def)
        with two show ?thesis by simp
      qed
    qed
  qed
  have after_failure: "fst (run_in_parallel fuel wall calls) \<noteq> OutOfFuel"
    if hyp: "(\<exists>c\<in>set calls. exits_at c = Some e \<and> exit_code c \<noteq> 0) \<and> e < fuel"
  proof (cases "snd (launch_each 0 calls)")
    case (Some err)
    then show ?thesis by (simp add: run_unfold Let_def)
  next
    case None
    define ps where "ps = fst (launch_each 0 calls)"
    define w0 where "w0 = \<lparr>tick = length ps, procs = ps, sleeps = 0, printed = []\<rparr>"
    from hyp obtain b where b: "b \<in> set calls" "exits_at b = Some e" "exit_code b \<noteq> 0"
      by blast
    from launch_each_none_spawns [OF None b(1)] obtain hb where hb: "hb \<in> set ps" "job hb = b"
      by (auto simp add: ps_def)
    from hb(1) launch_each_fresh [of hb 0 calls]
    have "returncode hb = None" "term_at hb = None" by (simp_all add: ps_def)
    with hb b
    have failing: "\<exists>h\<in>set (procs w0). exits_at (job h) = Some e \<and> exit_code (job h) \<noteq> 0 \<and>
        term_at h = None \<and> (returncode h = None \<or> returncode h = Some (exit_code (job h)))"
      by (auto simp add: w0_def)
    from hyp have "remaining ps = 0 \<or> (0 < fuel \<and> e < fuel + tick w0)" by simp
    from supervise_returns_after_failure [OF failing this, of wall "wall (length ps) + 15"]
    have "fst (supervise fuel wall (wall (length ps) + 15) (remaining ps) w0) \<noteq> OutOfFuel" .
    with None show ?thesis
      by (simp add: run_unfold Let_def ps_def w0_def)
  qed
  have all_end: "fst (run_in_parallel (Suc m) wall calls) \<noteq> OutOfFuel"
    if ends: "\<forall>c\<in>set calls. \<exists>e\<le>m. exits_at c = Some e"
  proof -
    define ps where "ps = fst (launch_each 0 calls)"
    define w0 where "w0 = \<lparr>tick = length ps, procs = ps, sleeps = 0, printed = []\<rparr>"
    have "\<forall>c\<in>set (map job (procs w0)). \<exists>e\<le>m. exits_at c = Some e"
      using ends launch_each_jobs [of 0 calls] by (auto simp add: w0_def ps_def)
    then have "fst (supervise (Suc m) wall (wall (length ps) + 15) (remaining ps) w0) \<noteq> OutOfFuel"
      by (rule supervise_returns) simp
    then show ?thesis
      by (simp add: run_unfold Let_def ps_def w0_def split: option.splits)
  qed
  from twice after_failure all_end show ?thesis by blast
qed

theorem cancelled_at_most_twice_witness:
  "map cancels (procs (snd (run_in_parallel 3 steady [unstoppable, exits 2 3, runs_until_told 0])))
     = [2, 1, 2] \<and>
   fst (run_in_parallel 3 steady [unstoppable, exits 2 3, runs_until_told 0]) = Returns (Some 1) \<and>
   fst (run_in_parallel (Suc 3) steady [exits 3 0, exits 2 0]) = Returns None"
proof -
  have a: "map cancels (procs (snd (run_in_parallel 3 steady [unstoppable, exits 2 3, runs_until_told 0])))
     = [2, 1, 2]"
    by code_simp
  have b: "(\<exists>c\<in>set [unstoppable, exits 2 3, runs_until_told 0]. exits_at c = Some 2 \<and> exit_code c \<noteq> 0) \<and>
      (2::nat) < 3"
    by (simp add: exits_def)
  have c: "\<forall>c\<in>set [exits 3 0, exits 2 0]. \<exists>e\<le>3. exits_at c = Some e"
    by (simp add: exits_def)
  from cancelled_at_most_twice_and_returns_after_failure
    [of 3 steady "[unstoppable, exits 2 3, runs_until_told 0]" 2] b
  have d: "fst (run_in_parallel 3 steady [unstoppable, exits 2 3, runs_until_told 0]) \<noteq> OutOfFuel"
    by blast
  from cancelled_at_most_twice_and_returns_after_failure
    [of 3 steady "[exits 3 0, exits 2 0]" 0 3] c
  have e: "fst (run_in_parallel (Suc 3) steady [exits 3 0, exits 2 0]) \<noteq> OutOfFuel"
    by blast
  have "fst (run_in_parallel 3 steady [unstoppable, exits 2 3, runs_until_told 0]) = Returns (Some 1) \<and>
   fst (run_in_parallel (Suc 3) steady [exits 3 0, exits 2 0]) = Returns None"
    by code_simp
  with a d e show ?thesis by simp
qed

theorem no_escalation_counterexample:
  "fst (run_in_parallel 5 steady [exits 0 1, unstoppable]) = Returns (Some 1) \<and>
   map cancels (procs (snd (run_in_parallel 5 steady [exits 0 1, unstoppable]))) = [1, 2] \<and>
   map returncode (procs (snd (run_in_parallel 5 steady [exits 0 1, unstoppable]))) = [Some 1, None] \<and>
   map (status_at 1000) (procs (snd (run_in_parallel 5 steady [exits 0 1, unstoppable])))
     = [Some 1, None]"
  by code_simp

text \<open>
  C6. When a spawn fails, the run ends with the spawn error. The tasks before the failing
  one were spawned in their order, each of their handles gets one termination request in
  the clean-up, which reaches the job unless the job has ended already (then its status is
  observed instead). Nothing else has happened: no handle was polled, no sleep was made,
  nothing was written, and no task after the failing one was spawned.
\<close>

theorem launch_error_aborts_before_polling:
  assumes "\<forall>c\<in>set pre. launches c" and "\<not> launches bad"
  shows "fst (run_in_parallel fuel wall (pre @ bad # post)) = Raises LaunchError \<and>
    map job (procs (snd (run_in_parallel fuel wall (pre @ bad # post)))) = pre \<and>
    map started (procs (snd (run_in_parallel fuel wall (pre @ bad # post)))) = [0..<length pre] \<and>
    (\<forall>h\<in>set (procs (snd (run_in_parallel fuel wall (pre @ bad # post)))).
       cancels h = 1 \<and> polls h = 0 \<and> (returncode h \<noteq> None \<or> term_at h \<noteq> None)) \<and>
    sleeps (snd (run_in_parallel fuel wall (pre @ bad # post))) = 0 \<and>
    printed (snd (run_in_parallel fuel wall (pre @ bad # post))) = []"
proof -
  define ps where "ps = fst (launch_each 0 (pre @ bad # post))"
  define w0 where "w0 = \<lparr>tick = length ps, procs = ps, sleeps = 0, printed = []\<rparr>"
  from launch_each_stops [OF assms, of 0 post]
  have err: "snd (launch_each 0 (pre @ bad # post)) = Some LaunchError"
    and jobs: "map job ps = pre" and starts: "map started ps = [0..<length pre]"
    by (simp_all add: ps_def)
  from err have run: "run_in_parallel fuel wall (pre @ bad # post) = (Raises LaunchError, cleanup w0)"
    by (simp add: run_unfold Let_def ps_def w0_def)
  have "cancels h' = 1 \<and> polls h' = 0 \<and> (returncode h' \<noteq> None \<or> term_at h' \<noteq> None)"
    if "h' \<in> set (terminate_running (tick w0) ps)" for h'
  proof -
    note told = terminate_running_settles [OF that]
    from terminate_running_set [OF that] obtain h where h: "h \<in> set ps"
      "(returncode h \<noteq> None \<and> h' = h) \<or> (returncode h = None \<and> (\<exists>t'\<ge>tick w0. h' = terminate t' h))"
      by blast
    from h(1) launch_each_fresh [of h 0 "pre @ bad # post"]
    have "returncode h = None" "cancels h = 0" "polls h = 0" by (simp_all add: ps_def)
    with h(2) have "cancels h' = 1 \<and> polls h' = 0" by auto
    with told show ?thesis by blast
  qed
  with run jobs starts show ?thesis by (simp add: w0_def)
qed

theorem launch_error_witness:
  "fst (run_in_parallel 5 steady [unstoppable, exits 0 0, unlaunchable, exits 0 1]) = Raises LaunchError \<and>
   map job (procs (snd (run_in_parallel 5 steady [unstoppable, exits 0 0, unlaunchable, exits 0 1])))
     = [unstoppable, exits 0 0] \<and>
   map cancels (procs (snd (run_in_parallel 5 steady [unstoppable, exits 0 0, unlaunchable, exits 0 1])))
     = [1, 1] \<and>
   map term_at (procs (snd (run_in_parallel 5 steady [unstoppable, exits 0 0, unlaunchable, exits 0 1])))
     = [Some 2, None] \<and>
   map returncode (procs (snd (run_in_parallel 5 steady [unstoppable, exits 0 0, unlaunchable, exits 0 1])))
     = [None, Some 0]"
proof -
  have a: "\<forall>c\<in>set [unstoppable, exits 0 0]. launches c" and b: "\<not> launches unlaunchable"
    by (simp_all add: unstoppable_def exits_def unlaunchable_def)
  have "map cancels (procs (snd (run_in_parallel 5 steady [unstoppable, exits 0 0, unlaunchable, exits 0 1])))
     = [1, 1] \<and>
   map term_at (procs (snd (run_in_parallel 5 steady [unstoppable, exits 0 0, unlaunchable, exits 0 1])))
     = [Some 2, None] \<and>
   map returncode (procs (snd (run_in_parallel 5 steady [unstoppable, exits 0 0, unlaunchable, exits 0 1])))
     = [None, Some 0]"
    by code_simp
  with launch_error_aborts_before_polling [OF a b, of 5 steady "[exits 0 1]"]
  show ?thesis by simp
qed

text \<open>
  C7. The count handed to the progress reporter is at most the size of the batch at every
  report, and from one report to the next of the same run it never grows.
\<close>

theorem reported_remaining_bounded_and_never_increasing:
  "(\<forall>m\<in>set (status_counts (printed (snd (run_in_parallel fuel wall calls)))). m \<le> length calls) \<and>
   sorted_wrt (\<ge>) (status_counts (printed (snd (run_in_parallel fuel wall calls))))"
proof (cases "snd (launch_each 0 calls)")
  case (Some e)
  then show ?thesis by (simp add: run_unfold Let_def)
next
  case None
  define ps where "ps = fst (launch_each 0 calls)"
  define w0 where "w0 = \<lparr>tick = length ps, procs = ps, sleeps = 0, printed = []\<rparr>"
  define r where "r = supervise fuel wall (wall (length ps) + 15) (remaining ps) w0"
  have "remaining ps \<le> length calls"
    using remaining_le_length [of ps] launch_each_length [of 0 calls] by (simp add: ps_def)
  then have "(\<forall>m\<in>set (status_counts (printed (snd r))). m \<le> length calls) \<and>
      sorted_wrt (\<ge>) (status_counts (printed (snd r)))"
    unfolding r_def by (intro supervise_counts) (simp_all add: w0_def)
  moreover have "printed (snd (run_in_parallel fuel wall calls)) = printed (snd r)"
    using None by (simp add: run_unfold Let_def ps_def w0_def r_def)
  ultimately show ?thesis by simp
qed

theorem reported_remaining_witness:
  "status_counts (printed (snd (run_in_parallel 8 slow [exits 20 0, exits 40 0]))) = [2, 2, 2, 1, 1, 1] \<and>
   length [exits 20 0, exits 40 0] = 2 \<and>
   sorted_wrt (\<ge>) (status_counts (printed (snd (run_in_parallel 8 slow [exits 20 0, exits 40 0]))))"
proof -
  have "status_counts (printed (snd (run_in_parallel 8 slow [exits 20 0, exits 40 0]))) = [2, 2, 2, 1, 1, 1]"
    by code_simp
  with reported_remaining_bounded_and_never_increasing [of 8 slow "[exits 20 0, exits 40 0]"]
  show ?thesis by simp
qed



text \<open>
  C9. A batch of zero tasks returns success at once, whatever the fuel: the loop body is
  never entered, so nothing is polled, no sleep is made, nothing is cancelled and nothing
  is reported.
\<close>

theorem empty_batch_returns_success:
  "run_in_parallel fuel wall [] = (Returns None, \<lparr>tick = 0, procs = [], sleeps = 0, printed = []\<rparr>)"
  by (cases fuel) (simp_all add: run_in_parallel_def remaining_def cleanup_def)

text \<open>
  C10. Every launcher that \<^verbatim>\<open>_run_tests_and_rerecord\<close> builds sends the standard
  output and the standard error of its process to the null device; there is one launcher
  per test file, in the order of the files. Therefore, whatever the test modules write
  to their output streams, none of it reaches the terminal, and everything the run writes
  is the supervisor's own: a progress report or one of its two failure lines.
\<close>

theorem test_launchers_are_silent:
  "(\<forall>c\<in>set (test_calls executable our_repo env0 test_files).
      stdout c = DEVNULL \<and> stderr c = DEVNULL) \<and>
   map args (test_calls executable our_repo env0 test_files)
     = map (\<lambda>pth. [executable, pth]) test_files \<and>
   snd (snd (run_test_modules fuel wall os executable our_repo env0 test_files)) = [] \<and>
   (\<forall>ev\<in>set (fst (snd (run_test_modules fuel wall os executable our_repo env0 test_files))).
      own_event ev)"
proof -
  define calls where "calls = test_calls executable our_repo env0 test_files"
  define w where "w = snd (run_in_parallel fuel wall (map (\<lambda>a. conduct (os a)) calls))"
  have streams: "\<forall>c\<in>set calls. stdout c = DEVNULL \<and> stderr c = DEVNULL"
    unfolding calls_def using test_calls_devnull by blast
  have argv: "map args calls = map (\<lambda>pth. [executable, pth]) test_files"
    by (simp add: calls_def test_calls_def)
  have "\<forall>a\<in>set (take (length (procs w)) calls). shown a (os a) = []"
    using streams by (auto dest: in_set_takeD simp add: shown_devnull)
  then have quiet: "concat (map (\<lambda>a. shown a (os a)) (take (length (procs w)) calls)) = []"
    by (rule concat_all_empty)
  have own: "\<forall>ev\<in>set (printed w). own_event ev"
    unfolding w_def by (auto dest: run_prints_own)
  have "run_test_modules fuel wall os executable our_repo env0 test_files =
      (fst (run_in_parallel fuel wall (map (\<lambda>a. conduct (os a)) calls)), printed w,
       concat (map (\<lambda>a. shown a (os a)) (take (length (procs w)) calls)))"
    by (simp add: run_test_modules_def Let_def case_prod_beta calls_def w_def)
  with streams argv quiet own show ?thesis
    by (simp add: calls_def)
qed

theorem test_launchers_witness:
  "map stdout (test_calls ''python3'' ''/repo'' Map.empty [''tests/test_a.py'', ''tests/test_b.py''])
     = [DEVNULL, DEVNULL] \<and>
   map stderr (test_calls ''python3'' ''/repo'' Map.empty [''tests/test_a.py'', ''tests/test_b.py''])
     = [DEVNULL, DEVNULL] \<and>
   map (to_stdout \<circ> chatty)
       (test_calls ''python3'' ''/repo'' Map.empty [''tests/test_a.py'', ''tests/test_b.py''])
     = [[''python3'', ''tests/test_a.py''], [''python3'', ''tests/test_b.py'']] \<and>
   run_test_modules 5 steady chatty ''python3'' ''/repo'' Map.empty
       [''tests/test_a.py'', ''tests/test_b.py'']
     = (Returns (Some 1),
        [Stderr ''One or more processes failed. Terminating all the processes...'',
         Stderr ''Terminated all the processes.''],
        []) \<and>
   shown \<lparr>args = [''python3'', ''tests/test_a.py''], cwd = ''/repo'', stdout = INHERIT,
           stderr = DEVNULL, encoding = ''utf-8'', env = Map.empty\<rparr>
       (chatty \<lparr>args = [''python3'', ''tests/test_a.py''], cwd = ''/repo'', stdout = INHERIT,
           stderr = DEVNULL, encoding = ''utf-8'', env = Map.empty\<rparr>)
     = [''python3'', ''tests/test_a.py'']"
proof -
  have conducts: "map (\<lambda>a. conduct (chatty a))
       (test_calls ''python3'' ''/repo'' Map.empty [''tests/test_a.py'', ''tests/test_b.py''])
     = [exits 2 1, exits 2 1]"
    by (simp add: test_calls_def chatty_def numeral_2_eq_2)
  have run: "run_in_parallel 5 steady [exits 2 1, exits 2 1]
     = (Returns (Some 1),
        \<lparr>tick = 7,
           procs = [\<lparr>job = exits 2 1, started = 0, returncode = Some 1, term_at = None,
                      polls = 1, cancels = 1\<rparr>,
                    \<lparr>job = exits 2 1, started = 1, returncode = Some 1, term_at = None,
                      polls = 1, cancels = 1\<rparr>],
           sleeps = 1,
           printed = [Stderr ''One or more processes failed. Terminating all the processes...'',
                      Stderr ''Terminated all the processes.'']\<rparr>)"
    by code_simp
  have first: "fst (run_test_modules 5 steady chatty ''python3'' ''/repo'' Map.empty
       [''tests/test_a.py'', ''tests/test_b.py'']) = Returns (Some 1)"
    and second: "fst (snd (run_test_modules 5 steady chatty ''python3'' ''/repo'' Map.empty
       [''tests/test_a.py'', ''tests/test_b.py'']))
     = [Stderr ''One or more processes failed. Terminating all the processes...'',
        Stderr ''Terminated all the processes.'']"
    by (simp_all add: run_test_modules_def Let_def conducts run)
  from test_launchers_are_silent [of "''python3''" "''/repo''" Map.empty
      "[''tests/test_a.py'', ''tests/test_b.py'']" 5 steady chatty]
  have third: "snd (snd (run_test_modules 5 steady chatty ''python3'' ''/repo'' Map.empty
       [''tests/test_a.py'', ''tests/test_b.py''])) = []"
    by blast
  from first second third
  have "run_test_modules 5 steady chatty ''python3'' ''/repo'' Map.empty
       [''tests/test_a.py'', ''tests/test_b.py'']
     = (Returns (Some 1),
        [Stderr ''One or more processes failed. Terminating all the processes...'',
         Stderr ''Terminated all the processes.''],
        [])"
    by (simp add: prod_eq_iff)
  then show ?thesis
    by (simp add: test_calls_def chatty_def shown_def)
qed

end
